theory Spec2Isabelle
  imports Main
begin

section \<open>Text formatting used by the harness\<close>

text \<open>
  \<^verbatim>\<open>str(n)\<close> of a Python integer, as the f-strings of \<^verbatim>\<open>stress_test.py\<close> use it:
  decimal digits, most significant first, with a leading minus sign for a negative number.
\<close>

definition digit_char :: "nat \<Rightarrow> char" where
  "digit_char d = char_of (48 + d)"

fun digits :: "nat \<Rightarrow> string" where
  "digits n = (if n < 10 then [digit_char n] else digits (n div 10) @ [digit_char (n mod 10)])"

declare digits.simps [simp del]

definition str_int :: "int \<Rightarrow> string" where
  "str_int i = (if i < 0 then CHR ''-'' # digits (nat (- i)) else digits (nat i))"

text \<open>\<^verbatim>\<open>sep.join(xs)\<close>.\<close>

fun join :: "string \<Rightarrow> string list \<Rightarrow> string" where
  "join sep [] = []"
| "join sep [x] = x"
| "join sep (x # y # ys) = x @ sep @ join sep (y # ys)"

text \<open>
  \<^verbatim>\<open>TEST_COMMAND = [sys.executable, "run_tests.py"]\<close>; the path of the interpreter is a
  parameter of the model.
\<close>

definition TEST_COMMAND :: "string \<Rightarrow> string list" where
  "TEST_COMMAND executable = [executable, ''run_tests.py'']"

section \<open>The cancellation listener\<close>

text \<open>
  The exceptions that can travel through \<^verbatim>\<open>listen_for_keypress\<close>. \<open>ImportError\<close> stands
  for every instance of that class (\<^verbatim>\<open>ModuleNotFoundError\<close> included), \<open>TermiosError\<close> for
  \<^verbatim>\<open>termios.error\<close>, \<open>OtherError\<close> for an exception of any other class.
\<close>

datatype exn = ImportError | TermiosError | UnboundLocalError | EOFError | OtherError string

text \<open>
  What the platform answers to each primitive the listener calls: \<open>None\<close> or \<open>Inr\<close> when the
  call returns, \<open>Some e\<close> or \<open>Inl e\<close> when it raises \<open>e\<close>.
\<close>

record listener_env =
  import_tty :: "exn option"
  import_termios :: "exn option"
  stdin_fileno :: "exn + int"
  tcgetattr :: "exn option"
  setcbreak :: "exn option"
  stdin_read :: "exn + string"
  tcsetattr :: "exn option"
  input_line :: "exn + string"

text \<open>What the listener does that can be seen from outside, in order.\<close>

datatype listener_event = GotChar string | GotLine string | Printed string

record listener_result =
  stop_after :: bool
  events :: "listener_event list"
  raised :: "exn option"

text \<open>
  Lines 23 to 31: the two imports, then the raw read between \<^verbatim>\<open>tcgetattr\<close> and the inner
  \<^verbatim>\<open>finally\<close> that restores the terminal. The result is the input received, the exception
  leaving the block if any, and whether the local name \<^verbatim>\<open>termios\<close> has been bound
  (it is bound by \<^verbatim>\<open>import termios\<close>, the second statement of the block).
\<close>

definition raw_read :: "listener_env \<Rightarrow> listener_event list \<times> exn option \<times> bool" where
  "raw_read env =
    (case import_tty env of
       Some e \<Rightarrow> ([], Some e, False)
     | None \<Rightarrow>
    (case import_termios env of
       Some e \<Rightarrow> ([], Some e, False)
     | None \<Rightarrow>
    (case stdin_fileno env of
       Inl e \<Rightarrow> ([], Some e, True)
     | Inr fd \<Rightarrow>
    (case tcgetattr env of
       Some e \<Rightarrow> ([], Some e, True)
     | None \<Rightarrow>
       (let (ev, r) =
          (case stdin_fileno env of
             Inl e \<Rightarrow> ([], Some e)
           | Inr fd' \<Rightarrow>
          (case setcbreak env of
             Some e \<Rightarrow> ([], Some e)
           | None \<Rightarrow>
          (case stdin_read env of
             Inl e \<Rightarrow> ([], Some e)
           | Inr c \<Rightarrow> ([GotChar c], None))))
        in (case tcsetattr env of
              Some e \<Rightarrow> (ev, Some e, True)
            | None \<Rightarrow> (ev, r, True)))))))"

text \<open>
  Line 32, \<^verbatim>\<open>except (ImportError, termios.error):\<close>. Python evaluates the tuple when an
  exception reaches the clause; \<^verbatim>\<open>termios\<close> is a local name of the function, so reading it
  before \<^verbatim>\<open>import termios\<close> has run raises \<^verbatim>\<open>UnboundLocalError\<close>, which replaces the
  exception being handled. Otherwise the two listed classes are handled by \<^verbatim>\<open>input()\<close> and
  every other exception propagates.
\<close>

definition handle_raw :: "listener_env \<Rightarrow> exn \<Rightarrow> bool \<Rightarrow> listener_event list \<times> exn option" where
  "handle_raw env e termios_bound =
    (if \<not> termios_bound then ([], Some UnboundLocalError)
     else if e = ImportError \<or> e = TermiosError then
       (case input_line env of
          Inl e' \<Rightarrow> ([], Some e')
        | Inr l \<Rightarrow> ([GotLine l], None))
     else ([], Some e))"

text \<open>
  \<^verbatim>\<open>listen_for_keypress(stop_flag)\<close>. The dictionary \<^verbatim>\<open>{"stop": False}\<close> keeps its single key
  throughout, so it is modelled by the boolean stored under that key. The outer
  \<^verbatim>\<open>finally\<close> (lines 35 to 37) runs on every path.
\<close>

definition listen_for_keypress :: "listener_env \<Rightarrow> bool \<Rightarrow> listener_result" where
  "listen_for_keypress env stop_flag =
    (let (ev1, r1, termios_bound) = raw_read env;
         (ev2, r2) = (case r1 of
                        None \<Rightarrow> ([], None)
                      | Some e \<Rightarrow> handle_raw env e termios_bound)
     in \<lparr>stop_after = True,
         events = ev1 @ ev2 @
           [Printed (CHR 0x0A # ''--- Keypress detected. Stopping after current test run... ---'')],
         raised = r2\<rparr>)"

section \<open>The run loop\<close>

text \<open>
  What one call of \<^verbatim>\<open>subprocess.run(TEST_COMMAND, capture_output=True, text=True, check=False)\<close>
  gives: a completed process with its return code and captured streams, a
  \<^verbatim>\<open>FileNotFoundError\<close>, or any other \<^verbatim>\<open>Exception\<close> with its message.
\<close>

datatype proc_outcome =
    Completed int string string
  | FileNotFoundError
  | OtherException string

fun passed :: "proc_outcome \<Rightarrow> bool" where
  "passed (Completed returncode out_text err_text) = (returncode = 0)"
| "passed FileNotFoundError = False"
| "passed (OtherException e) = False"

text \<open>
  The surroundings of the program: the interpreter path, the outcome of the \<open>k\<close>-th
  invocation of the test command, and the platform the listener runs on.
\<close>

record env =
  executable :: string
  invoke :: "nat \<Rightarrow> proc_outcome"
  platform :: listener_env

text \<open>
  Program points of \<^verbatim>\<open>main\<close>: before the loop, at the \<^verbatim>\<open>while\<close> test (line 55), inside
  \<^verbatim>\<open>subprocess.run\<close> (line 61), after the loop (line 90), and after \<^verbatim>\<open>sys.exit(status)\<close>.
\<close>

datatype point = Startup | LoopTop | Running | AfterLoop | Exited int

datatype listener_status = NotStarted | Listening | Finished

text \<open>
  The state of the process: the shared flag \<^verbatim>\<open>stop_signal["stop"]\<close>, the locals and the
  printed lines of the main thread (one entry for each \<^verbatim>\<open>print\<close>), and what the listener
  thread has done. The two threads' prints are kept apart: nothing orders them.
\<close>

record state =
  stop :: bool
  run_count :: nat
  has_failed :: bool
  pc :: point
  out :: "string list"
  lstat :: listener_status
  levents :: "listener_event list"
  lraised :: "exn option"

definition init :: state where
  "init = \<lparr>stop = False, run_count = 0, has_failed = False, pc = Startup, out = [],
           lstat = NotStarted, levents = [], lraised = None\<rparr>"

definition run_header :: "nat \<Rightarrow> string" where
  "run_header k = CHR 0x0A # ''--- [ Run '' @ str_int (int k) @ '' ] ---''"

definition banner :: "env \<Rightarrow> string list" where
  "banner env =
    [''--- Starting stress test. Press any key to stop gracefully. ---'',
     ''--- Test command: '' @ join '' '' (TEST_COMMAND (executable env)) @ '' ---'']"

text \<open>
  One step of the main thread. The step taken at \<open>LoopTop\<close> reads the flag and, when it is
  clear, counts the run, prints its header and enters \<^verbatim>\<open>subprocess.run\<close>; the step taken
  at \<open>Running\<close> is the return of that call and everything \<^verbatim>\<open>main\<close> does with the result,
  up to the next \<^verbatim>\<open>while\<close> test or the \<^verbatim>\<open>break\<close>.
\<close>

definition main_step :: "env \<Rightarrow> state \<Rightarrow> state" where
  "main_step env s =
    (case pc s of
       Startup \<Rightarrow>
         s\<lparr>run_count := 0, has_failed := False, out := out s @ banner env,
           lstat := Listening, pc := LoopTop\<rparr>
     | LoopTop \<Rightarrow>
         (if \<not> stop s then
            s\<lparr>run_count := run_count s + 1,
              out := out s @ [run_header (run_count s + 1)],
              pc := Running\<rparr>
          else s\<lparr>pc := AfterLoop\<rparr>)
     | Running \<Rightarrow>
         (case invoke env (run_count s) of
            Completed returncode stdout stderr \<Rightarrow>
              (if returncode = 0 then
                 s\<lparr>out := out s @ [''--- Result: PASSED ---''], pc := LoopTop\<rparr>
               else
                 s\<lparr>out := out s @
                      [''--- Result: FAILED (Exit Code: '' @ str_int returncode @ '') ---'',
                       CHR 0x0A # ''--- STDOUT ---'',
                       stdout,
                       CHR 0x0A # ''--- STDERR ---'',
                       stderr],
                   has_failed := True, pc := AfterLoop\<rparr>)
          | FileNotFoundError \<Rightarrow>
              s\<lparr>out := out s @
                   [''--- ERROR: Command not found: '' @ [CHR 0x27] @
                      join '' '' (TEST_COMMAND (executable env)) @ [CHR 0x27] @ '' ---'',
                    ''--- Please ensure you are in the correct directory and the test script exists. ---''],
                has_failed := True, pc := AfterLoop\<rparr>
          | OtherException e \<Rightarrow>
              s\<lparr>out := out s @ [''--- An unexpected error occurred: '' @ e @ '' ---''],
                has_failed := True, pc := AfterLoop\<rparr>)
     | AfterLoop \<Rightarrow>
         (if has_failed s then
            s\<lparr>out := out s @
                 [CHR 0x0A # ''--- Stress test finished. ---'', ''--- Failure detected. ---''],
              pc := Exited 1\<rparr>
          else
            s\<lparr>out := out s @
                 [CHR 0x0A # ''--- Stress test finished. ---'',
                  ''--- All '' @ str_int (int (run_count s)) @ '' runs passed successfully. ---''],
              pc := Exited 0\<rparr>)
     | Exited status \<Rightarrow> s)"

text \<open>
  The listener thread takes one step: the blocking read returns (or fails) and the
  \<^verbatim>\<open>finally\<close> block writes the flag. It is a daemon thread, started by \<^verbatim>\<open>main\<close>: it does
  nothing before \<^verbatim>\<open>keypress_thread.start()\<close> and nothing once the process has exited.
\<close>

definition exited :: "state \<Rightarrow> bool" where
  "exited s = (case pc s of Exited status \<Rightarrow> True | _ \<Rightarrow> False)"

definition listener_step :: "env \<Rightarrow> state \<Rightarrow> state" where
  "listener_step env s =
    (if lstat s = Listening \<and> \<not> exited s then
       (let r = listen_for_keypress (platform env) (stop s)
        in s\<lparr>stop := stop_after r, levents := events r, lraised := raised r,
             lstat := Finished\<rparr>)
     else s)"

datatype thread = Controller | Listener

fun step :: "env \<Rightarrow> thread \<Rightarrow> state \<Rightarrow> state" where
  "step env Controller s = main_step env s"
| "step env Listener s = listener_step env s"

text \<open>
  An execution is a schedule: the list of the threads that take the successive steps.
  A listener that blocks for ever is a schedule without \<open>Listener\<close>.
\<close>

fun exec :: "env \<Rightarrow> thread list \<Rightarrow> state \<Rightarrow> state" where
  "exec env [] s = s"
| "exec env (t # ts) s = exec env ts (step env t s)"

text \<open>The states an execution goes through, the first one included.\<close>

fun history :: "env \<Rightarrow> thread list \<Rightarrow> state \<Rightarrow> state list" where
  "history env [] s = [s]"
| "history env (t # ts) s = s # history env ts (step env t s)"

section \<open>Notions used in the statements\<close>

text \<open>
  The two lines a passing run leaves in the log, and the log of \<open>n\<close> passing runs
  numbered from 1.
\<close>

definition pass_block :: "nat \<Rightarrow> string list" where
  "pass_block k = [run_header k, ''--- Result: PASSED ---'']"

definition passed_log :: "nat \<Rightarrow> string list" where
  "passed_log n = concat (map pass_block [1..<Suc n])"

text \<open>The lines \<^verbatim>\<open>main\<close> prints for a run that does not pass, by kind of outcome.\<close>

fun fail_lines :: "env \<Rightarrow> proc_outcome \<Rightarrow> string list" where
  "fail_lines env (Completed returncode stdout stderr) =
     [''--- Result: FAILED (Exit Code: '' @ str_int returncode @ '') ---'',
      CHR 0x0A # ''--- STDOUT ---'', stdout, CHR 0x0A # ''--- STDERR ---'', stderr]"
| "fail_lines env FileNotFoundError =
     [''--- ERROR: Command not found: '' @ [CHR 0x27] @
        join '' '' (TEST_COMMAND (executable env)) @ [CHR 0x27] @ '' ---'',
      ''--- Please ensure you are in the correct directory and the test script exists. ---'']"
| "fail_lines env (OtherException e) = [''--- An unexpected error occurred: '' @ e @ '' ---'']"

text \<open>The whole log up to the report of a failing run number \<open>n\<close>.\<close>

definition failed_log :: "env \<Rightarrow> nat \<Rightarrow> string list" where
  "failed_log env n =
     banner env @ passed_log (n - 1) @ [run_header n] @ fail_lines env (invoke env n)"

text \<open>The invocations 1 to \<open>n\<close> all return status 0.\<close>

definition passes :: "env \<Rightarrow> nat \<Rightarrow> bool" where
  "passes env n = (\<forall>k\<in>{1..n}. passed (invoke env k))"

text \<open>What belongs to the main thread alone: its locals, its program point and its log.\<close>

definition ctl :: "state \<Rightarrow> nat \<times> bool \<times> point \<times> string list" where
  "ctl s = (run_count s, has_failed s, pc s, out s)"

text \<open>
  What holds of every reachable state, by program point: the log is the banner, one
  block for each passed run, and then the header or the report of the run in hand; the
  loop is left without a failure only when the flag has been read set.
\<close>

definition main_inv :: "env \<Rightarrow> state \<Rightarrow> bool" where
  "main_inv env s =
    (case pc s of
       Startup \<Rightarrow> \<not> stop s \<and> run_count s = 0 \<and> out s = [] \<and> lstat s = NotStarted
     | LoopTop \<Rightarrow> \<not> has_failed s \<and> passes env (run_count s) \<and>
         out s = banner env @ passed_log (run_count s)
     | Running \<Rightarrow> \<not> has_failed s \<and> 1 \<le> run_count s \<and> passes env (run_count s - 1) \<and>
         out s = banner env @ passed_log (run_count s - 1) @ [run_header (run_count s)]
     | AfterLoop \<Rightarrow>
         (if has_failed s then
            1 \<le> run_count s \<and> passes env (run_count s - 1) \<and>
            \<not> passed (invoke env (run_count s)) \<and> out s = failed_log env (run_count s)
          else stop s \<and> passes env (run_count s) \<and>
            out s = banner env @ passed_log (run_count s))
     | Exited status \<Rightarrow>
         (if has_failed s then
            status = 1 \<and> 1 \<le> run_count s \<and> passes env (run_count s - 1) \<and>
            \<not> passed (invoke env (run_count s)) \<and>
            out s = failed_log env (run_count s) @
              [CHR 0x0A # ''--- Stress test finished. ---'', ''--- Failure detected. ---'']
          else status = 0 \<and> stop s \<and> passes env (run_count s) \<and>
            out s = banner env @ passed_log (run_count s) @
              [CHR 0x0A # ''--- Stress test finished. ---'',
               ''--- All '' @ str_int (int (run_count s)) @ '' runs passed successfully. ---'']))"

text \<open>
  States from which \<^verbatim>\<open>main\<close> does not read the flag again, states in which the listener
  can no longer change what \<^verbatim>\<open>main\<close> does, and two states that \<^verbatim>\<open>main\<close> cannot tell
  apart.
\<close>

definition no_more_checks :: "env \<Rightarrow> state \<Rightarrow> bool" where
  "no_more_checks env s =
    (case pc s of
       Startup \<Rightarrow> False
     | LoopTop \<Rightarrow> False
     | Running \<Rightarrow> \<not> passed (invoke env (run_count s))
     | AfterLoop \<Rightarrow> True
     | Exited status \<Rightarrow> True)"

definition settled :: "env \<Rightarrow> state \<Rightarrow> bool" where
  "settled env s = (stop s \<or> no_more_checks env s)"

definition sim :: "env \<Rightarrow> state \<Rightarrow> state \<Rightarrow> bool" where
  "sim env s s' = (ctl s = ctl s' \<and> (stop s = stop s' \<or> no_more_checks env s))"

subsection \<open>Environments used as examples\<close>

text \<open>
  A POSIX terminal on which every call succeeds; a platform without the \<^verbatim>\<open>termios\<close>
  module, where \<^verbatim>\<open>import tty\<close> raises \<^verbatim>\<open>ModuleNotFoundError\<close>; a test command that
  always passes; one that passes three times and then exits with status 2 and
  \<^verbatim>\<open>assertion failed\<close> on its standard error; an interpreter path that does not exist.
\<close>

definition posix_tty :: listener_env where
  "posix_tty = \<lparr>import_tty = None, import_termios = None, stdin_fileno = Inr 0,
     tcgetattr = None, setcbreak = None, stdin_read = Inr ''q'', tcsetattr = None,
     input_line = Inr []\<rparr>"

definition no_termios :: listener_env where
  "no_termios = \<lparr>import_tty = Some ImportError, import_termios = Some ImportError,
     stdin_fileno = Inr 0, tcgetattr = None, setcbreak = None, stdin_read = Inr ''q'',
     tcsetattr = None, input_line = Inr ''stop''\<rparr>"

definition steady_env :: env where
  "steady_env = \<lparr>executable = ''/usr/bin/python3'',
     invoke = (\<lambda>k. Completed 0 ''ok'' []), platform = posix_tty\<rparr>"

definition flaky_env :: env where
  "flaky_env = \<lparr>executable = ''/usr/bin/python3'',
     invoke = (\<lambda>k. if k < 4 then Completed 0 ''ok'' [] else Completed 2 [] ''assertion failed''),
     platform = posix_tty\<rparr>"


definition windows_env :: env where
  "windows_env = \<lparr>executable = ''C:/Python/python.exe'',
     invoke = (\<lambda>k. Completed 0 ''ok'' []), platform = no_termios\<rparr>"

section \<open>Basic facts\<close>

lemma passed_log_0: "passed_log 0 = []"
  by (simp add: passed_log_def)

lemma passed_log_Suc: "passed_log (Suc n) = passed_log n @ pass_block (Suc n)"
  by (simp add: passed_log_def)

lemma passes_0: "passes env 0"
  by (simp add: passes_def)

lemma passes_Suc: "passes env (Suc n) = (passes env n \<and> passed (invoke env (Suc n)))"
  by (auto simp: passes_def atLeastAtMostSuc_conv)

lemma exec_append: "exec env (xs @ ys) s = exec env ys (exec env xs s)"
  by (induction xs arbitrary: s) simp_all

text \<open>The outer \<^verbatim>\<open>finally\<close> sets the flag whatever happened before.\<close>

lemma listen_sets_flag: "stop_after (listen_for_keypress penv b) = True"
  by (simp add: listen_for_keypress_def split: prod.splits)

text \<open>Where input is refused: what the listener does on each kind of platform.\<close>

lemma fallback_after_termios_error:
  assumes "import_tty penv = None" and "import_termios penv = None"
    and "stdin_fileno penv = Inr fd" and "tcgetattr penv = Some TermiosError"
    and "input_line penv = Inr l"
  shows "listen_for_keypress penv b =
         \<lparr>stop_after = True,
          events = [GotLine l, Printed (CHR 0x0A #
            ''--- Keypress detected. Stopping after current test run... ---'')],
          raised = None\<rparr>"
  using assms by (simp add: listen_for_keypress_def raw_read_def handle_raw_def)

lemma flag_set_without_input:
  assumes "import_tty penv = None" and "import_termios penv = None"
    and "stdin_fileno penv = Inr fd" and "tcgetattr penv = Some TermiosError"
    and "input_line penv = Inl EOFError"
  shows "listen_for_keypress penv b =
         \<lparr>stop_after = True,
          events = [Printed (CHR 0x0A #
            ''--- Keypress detected. Stopping after current test run... ---'')],
          raised = Some EOFError\<rparr>"
  using assms by (simp add: listen_for_keypress_def raw_read_def handle_raw_def)

lemma no_fallback_without_termios:
  assumes "import_tty penv = Some e"
  shows "listen_for_keypress penv b =
         \<lparr>stop_after = True,
          events = [Printed (CHR 0x0A #
            ''--- Keypress detected. Stopping after current test run... ---'')],
          raised = Some UnboundLocalError\<rparr>"
  using assms by (simp add: listen_for_keypress_def raw_read_def handle_raw_def)

text \<open>\<^verbatim>\<open>main\<close> never writes the flag; the listener never touches what belongs to \<^verbatim>\<open>main\<close>.\<close>

lemma main_step_stop: "stop (main_step env s) = stop s"
  by (simp add: main_step_def split: point.splits proc_outcome.splits)

lemma listener_step_ctl: "ctl (listener_step env s) = ctl s"
  by (simp add: listener_step_def ctl_def Let_def)


lemma listener_step_stop: "stop s \<Longrightarrow> stop (listener_step env s)"
  by (simp add: listener_step_def Let_def listen_sets_flag)

lemma step_stop: "stop s \<Longrightarrow> stop (step env t s)"
  by (cases t) (simp_all add: main_step_stop listener_step_stop)

lemma exec_stop: "stop s \<Longrightarrow> stop (exec env sched s)"
  by (induction sched arbitrary: s) (simp_all add: step_stop)

lemma main_step_exited: "exited s \<Longrightarrow> main_step env s = s"
  by (cases "pc s") (simp_all add: exited_def main_step_def)

lemma exec_exited: "exited s \<Longrightarrow> exec env rest s = s"
proof (induction rest)
  case Nil
  show ?case by simp
next
  case (Cons t ts)
  then show ?case
    by (cases t) (simp_all add: main_step_exited listener_step_def)
qed


lemma main_step_fail:
  assumes "pc s = Running" and "\<not> passed (invoke env (run_count s))"
  shows "main_step env s =
         s\<lparr>out := out s @ fail_lines env (invoke env (run_count s)), has_failed := True,
           pc := AfterLoop\<rparr>"
  using assms by (cases "invoke env (run_count s)") (simp_all add: main_step_def)

section \<open>The invariant\<close>

lemma inv_init: "main_inv env init"
  by (simp add: main_inv_def init_def)

lemma inv_main_step:
  assumes "main_inv env s"
  shows "main_inv env (main_step env s)"
proof (cases "pc s")
  case Startup
  with assms show ?thesis
    by (simp add: main_inv_def main_step_def passes_0 passed_log_0)
next
  case LoopTop
  with assms show ?thesis
    by (simp add: main_inv_def main_step_def)
next
  case Running
  then obtain n where n: "run_count s = Suc n"
    using assms by (cases "run_count s") (simp_all add: main_inv_def)
  show ?thesis
  proof (cases "invoke env (Suc n)")
    case (Completed returncode stdout stderr)
    with assms Running n show ?thesis
      by (simp add: main_inv_def main_step_def passes_Suc passed_log_Suc pass_block_def failed_log_def)
  next
    case FileNotFoundError
    with assms Running n show ?thesis
      by (simp add: main_inv_def main_step_def failed_log_def)
  next
    case (OtherException e)
    with assms Running n show ?thesis
      by (simp add: main_inv_def main_step_def failed_log_def)
  qed
next
  case AfterLoop
  with assms show ?thesis
    by (cases "has_failed s") (simp_all add: main_inv_def main_step_def)
next
  case (Exited status)
  with assms show ?thesis
    by (simp add: main_step_def)
qed

lemma inv_listener_step:
  assumes "main_inv env s"
  shows "main_inv env (listener_step env s)"
  using assms
  by (cases "pc s")
     (auto simp: main_inv_def listener_step_def Let_def listen_sets_flag exited_def)

lemma inv_step: "main_inv env s \<Longrightarrow> main_inv env (step env t s)"
  by (cases t) (simp_all add: inv_main_step inv_listener_step)

lemma inv_exec: "main_inv env s \<Longrightarrow> main_inv env (exec env sched s)"
  by (induction sched arbitrary: s) (simp_all add: inv_step)

lemma inv_reachable: "main_inv env (exec env sched init)"
  by (rule inv_exec) (rule inv_init)

section \<open>Schedules that no longer matter\<close>

text \<open>
  Once the flag is set, or once \<^verbatim>\<open>main\<close> will not read it again, the listener's steps
  change nothing for \<^verbatim>\<open>main\<close>: an execution under any schedule leaves \<^verbatim>\<open>main\<close> where its
  own steps alone would.
\<close>

lemma no_more_checks_main_step:
  "no_more_checks env s \<Longrightarrow> no_more_checks env (main_step env s)"
  by (cases "pc s"; cases "invoke env (run_count s)")
     (simp_all add: no_more_checks_def main_step_def)

lemma no_more_checks_ctl: "ctl s = ctl s' \<Longrightarrow> no_more_checks env s = no_more_checks env s'"
  by (auto simp: no_more_checks_def ctl_def split: point.splits)

lemma settled_step: "settled env s \<Longrightarrow> settled env (step env t s)"
  using no_more_checks_main_step [of env s] no_more_checks_ctl [OF listener_step_ctl, of env env s]
  by (cases t) (auto simp: settled_def main_step_stop listener_step_stop)

lemma sim_main_step:
  assumes "sim env s s'"
  shows "sim env (main_step env s) (main_step env s')"
proof -
  from assms have c: "run_count s = run_count s'" "has_failed s = has_failed s'"
    "pc s = pc s'" "out s = out s'"
    by (simp_all add: sim_def ctl_def)
  from assms have d: "stop s = stop s' \<or> no_more_checks env s"
    by (simp add: sim_def)
  have "ctl (main_step env s) = ctl (main_step env s')"
    using c d
    by (cases "pc s'"; cases "invoke env (run_count s')")
       (auto simp: ctl_def main_step_def no_more_checks_def)
  with d show ?thesis
    by (auto simp: sim_def main_step_stop no_more_checks_main_step)
qed

lemma sim_listener_step:
  assumes "sim env s s'" and "settled env s"
  shows "sim env (listener_step env s) s'"
proof (cases "no_more_checks env s")
  case True
  then have "no_more_checks env (listener_step env s)"
    using no_more_checks_ctl [OF listener_step_ctl, of env env s] by simp
  with assms show ?thesis
    by (simp add: sim_def listener_step_ctl)
next
  case False
  with assms have "stop s" "stop s'"
    by (auto simp: settled_def sim_def)
  with assms show ?thesis
    by (simp add: sim_def listener_step_ctl listener_step_stop)
qed

lemma exec_settled_sim:
  "sim env s s' \<Longrightarrow> settled env s \<Longrightarrow>
   ctl (exec env sched s) = ctl ((main_step env ^^ count_list sched Controller) s')"
proof (induction sched arbitrary: s s')
  case Nil
  then show ?case by (simp add: sim_def)
next
  case (Cons t ts)
  show ?case
  proof (cases t)
    case Controller
    have "ctl (exec env ts (main_step env s)) =
          ctl ((main_step env ^^ count_list ts Controller) (main_step env s'))"
      using Cons.prems settled_step [of env s Controller]
      by (intro Cons.IH sim_main_step) simp_all
    with Controller show ?thesis
      by (simp add: funpow_swap1)
  next
    case Listener
    have "ctl (exec env ts (listener_step env s)) =
          ctl ((main_step env ^^ count_list ts Controller) s')"
      using Cons.prems settled_step [of env s Listener]
      by (intro Cons.IH sim_listener_step) simp_all
    with Listener show ?thesis
      by simp
  qed
qed

lemma exec_settled:
  "settled env s \<Longrightarrow>
   ctl (exec env sched s) = ctl ((main_step env ^^ count_list sched Controller) s)"
  by (rule exec_settled_sim) (simp_all add: sim_def)

lemma funpow_exited: "exited s \<Longrightarrow> (main_step env ^^ n) s = s"
  by (induction n) (simp_all add: main_step_exited)

lemma funpow_reaches_exit:
  "exited ((main_step env ^^ k) s) \<Longrightarrow> k \<le> n \<Longrightarrow>
   (main_step env ^^ n) s = (main_step env ^^ k) s"
proof -
  assume e: "exited ((main_step env ^^ k) s)" and le: "k \<le> n"
  have "(main_step env ^^ n) s = (main_step env ^^ (n - k)) ((main_step env ^^ k) s)"
    using le funpow_add [of "n - k" k "main_step env"] by simp
  also have "\<dots> = (main_step env ^^ k) s"
    using e by (rule funpow_exited)
  finally show ?thesis .
qed

lemma exec_settled_exit:
  assumes "settled env s" and "exited ((main_step env ^^ k) s)"
    and "k \<le> count_list sched Controller"
  shows "ctl (exec env sched s) = ctl ((main_step env ^^ k) s)"
  using exec_settled [OF assms(1), of sched] funpow_reaches_exit [OF assms(2,3)]
  by simp

lemma settled_run_count:
  assumes "settled env s" and "pc s \<noteq> Startup"
  shows "run_count ((main_step env ^^ n) s) = run_count s \<and>
         pc ((main_step env ^^ n) s) \<noteq> Startup \<and> settled env ((main_step env ^^ n) s)"
proof (induction n)
  case 0
  from assms show ?case by simp
next
  case (Suc n)
  let ?t = "(main_step env ^^ n) s"
  from Suc have a: "run_count ?t = run_count s" "pc ?t \<noteq> Startup" "settled env ?t"
    by simp_all
  have "run_count (main_step env ?t) = run_count ?t \<and> pc (main_step env ?t) \<noteq> Startup"
    using a(2,3)
    by (cases "pc ?t"; cases "invoke env (run_count ?t)")
       (auto simp: main_step_def settled_def no_more_checks_def)
  moreover have "settled env (main_step env ?t)"
    using settled_step [OF a(3), of Controller] by simp
  ultimately show ?case
    using a(1) by simp
qed

lemma no_new_run:
  assumes "settled env s" and "pc s \<noteq> Startup"
  shows "run_count (exec env rest s) = run_count s"
  using exec_settled [OF assms(1), of rest] settled_run_count [OF assms]
  by (simp add: ctl_def)

section \<open>Runs of the loop\<close>

lemma pass_round:
  assumes "pc s = LoopTop" and "\<not> stop s" and "passed (invoke env (Suc (run_count s)))"
  shows "exec env [Controller, Controller] s =
         s\<lparr>run_count := Suc (run_count s), out := out s @ pass_block (Suc (run_count s)),
           pc := LoopTop\<rparr>"
  using assms
  by (cases "invoke env (Suc (run_count s))")
     (simp_all add: main_step_def pass_block_def)

lemma controller_alone:
  assumes "passes env N"
  shows "exec env (replicate (Suc (2 * N)) Controller) init =
         init\<lparr>run_count := N, out := banner env @ passed_log N, lstat := Listening,
           pc := LoopTop\<rparr>"
  using assms
proof (induction N)
  case 0
  show ?case
    by (simp add: main_step_def init_def passed_log_0)
next
  case (Suc N)
  then have IH: "exec env (replicate (Suc (2 * N)) Controller) init =
      init\<lparr>run_count := N, out := banner env @ passed_log N, lstat := Listening,
        pc := LoopTop\<rparr>" (is "_ = ?s")
    and p: "passed (invoke env (Suc N))"
    by (simp_all add: passes_Suc)
  have "replicate (Suc (2 * Suc N)) Controller =
        replicate (Suc (2 * N)) Controller @ [Controller, Controller]"
    using replicate_add [of "Suc (2 * N)" 2 Controller]
    by (simp add: numeral_2_eq_2)
  then have "exec env (replicate (Suc (2 * Suc N)) Controller) init =
             exec env [Controller, Controller] ?s"
    by (simp only: exec_append IH)
  also have "\<dots> = ?s\<lparr>run_count := Suc (run_count ?s),
      out := out ?s @ pass_block (Suc (run_count ?s)), pc := LoopTop\<rparr>"
    by (rule pass_round) (simp_all add: init_def p)
  finally show ?case
    by (simp add: passed_log_Suc)
qed

lemma reach_stop_at_top:
  assumes "passes env N"
  shows "pc (exec env (replicate (Suc (2 * N)) Controller @ [Listener]) init) = LoopTop \<and>
         run_count (exec env (replicate (Suc (2 * N)) Controller @ [Listener]) init) = N \<and>
         stop (exec env (replicate (Suc (2 * N)) Controller @ [Listener]) init)"
  unfolding exec_append controller_alone [OF assms]
  by (simp add: listener_step_def init_def exited_def Let_def listen_sets_flag)

lemma reach_running:
  assumes "passes env N"
  shows "pc (exec env (replicate (Suc (2 * N)) Controller @ [Controller]) init) = Running \<and>
         run_count (exec env (replicate (Suc (2 * N)) Controller @ [Controller]) init) = Suc N"
  unfolding exec_append controller_alone [OF assms]
  by (simp add: main_step_def init_def)

lemma clean_stop:
  assumes inv: "main_inv env s" and top: "pc s = LoopTop" and flag: "stop s"
    and n: "2 \<le> count_list rest Controller"
  shows "ctl (exec env rest s) =
         (run_count s, False, Exited 0,
          banner env @ passed_log (run_count s) @
            [CHR 0x0A # ''--- Stress test finished. ---'',
             ''--- All '' @ str_int (int (run_count s)) @ '' runs passed successfully. ---''])"
proof -
  have two: "(main_step env ^^ 2) s =
      s\<lparr>out := out s @
          [CHR 0x0A # ''--- Stress test finished. ---'',
           ''--- All '' @ str_int (int (run_count s)) @ '' runs passed successfully. ---''],
        pc := Exited 0\<rparr>"
    using inv top flag by (simp add: numeral_2_eq_2 main_step_def main_inv_def)
  have "ctl (exec env rest s) = ctl ((main_step env ^^ 2) s)"
    using flag n by (intro exec_settled_exit) (simp_all add: settled_def two exited_def)
  with inv top show ?thesis
    by (simp add: two ctl_def main_inv_def)
qed

lemma failing_run:
  assumes inv: "main_inv env s" and run: "pc s = Running"
    and bad: "\<not> passed (invoke env (run_count s))"
    and n: "2 \<le> count_list rest Controller"
  shows "ctl (exec env rest s) =
         (run_count s, True, Exited 1,
          failed_log env (run_count s) @
            [CHR 0x0A # ''--- Stress test finished. ---'', ''--- Failure detected. ---''])"
proof -
  have two: "(main_step env ^^ 2) s =
      s\<lparr>out := out s @ fail_lines env (invoke env (run_count s)) @
          [CHR 0x0A # ''--- Stress test finished. ---'', ''--- Failure detected. ---''],
        has_failed := True, pc := Exited 1\<rparr>"
    by (simp add: numeral_2_eq_2 main_step_fail [OF run bad]) (simp add: main_step_def)
  have "ctl (exec env rest s) = ctl ((main_step env ^^ 2) s)"
    using run bad n
    by (intro exec_settled_exit) (simp_all add: settled_def no_more_checks_def two exited_def)
  with inv run show ?thesis
    by (simp add: two ctl_def main_inv_def failed_log_def)
qed

lemma after_failing_return:
  assumes run: "pc s = Running" and bad: "\<not> passed (invoke env (run_count s))"
    and n: "1 \<le> count_list rest Controller"
  shows "has_failed (exec env rest s) \<and>
         (pc (exec env rest s) = AfterLoop \<or> pc (exec env rest s) = Exited 1)"
proof -
  let ?k = "count_list rest Controller"
  have st: "settled env s"
    using run bad by (simp add: settled_def no_more_checks_def)
  have one: "main_step env s =
      s\<lparr>out := out s @ fail_lines env (invoke env (run_count s)), has_failed := True,
        pc := AfterLoop\<rparr>" (is "_ = ?a")
    by (rule main_step_fail [OF run bad])
  have two: "main_step env ?a =
      ?a\<lparr>out := out ?a @
          [CHR 0x0A # ''--- Stress test finished. ---'', ''--- Failure detected. ---''],
        pc := Exited 1\<rparr>" (is "_ = ?b")
    by (simp add: main_step_def)
  have c: "ctl (exec env rest s) = ctl ((main_step env ^^ ?k) s)"
    by (rule exec_settled [OF st])
  show ?thesis
  proof (cases "?k = 1")
    case True
    with c one show ?thesis by (simp add: ctl_def)
  next
    case False
    with n have k2: "2 \<le> ?k" by simp
    have "(main_step env ^^ 2) s = ?b"
      by (simp add: numeral_2_eq_2 one two)
    moreover have "exited ?b"
      by (simp add: exited_def)
    ultimately have "(main_step env ^^ ?k) s = ?b"
      using funpow_reaches_exit [where env = env and k = 2 and s = s and n = ?k] k2 by simp
    with c show ?thesis by (simp add: ctl_def)
  qed
qed

lemma after_loop_exit:
  assumes "pc s = AfterLoop" and "1 \<le> count_list rest Controller"
  shows "pc (exec env rest s) = Exited (if has_failed s then 1 else 0)"
proof -
  have st: "settled env s"
    using assms(1) by (simp add: settled_def no_more_checks_def)
  have "exited ((main_step env ^^ 1) s)"
    using assms(1) by (simp add: main_step_def exited_def)
  then have "ctl (exec env rest s) = ctl ((main_step env ^^ 1) s)"
    using assms(2) by (intro exec_settled_exit [OF st]) simp_all
  with assms(1) show ?thesis
    by (simp add: ctl_def main_step_def)
qed

section \<open>Histories\<close>

lemma history_nth:
  "n \<le> length sched \<Longrightarrow> history env sched s ! n = exec env (take n sched) s"
proof (induction sched arbitrary: s n)
  case Nil
  then show ?case by simp
next
  case (Cons t ts)
  then show ?case by (cases n) simp_all
qed

lemma length_history: "length (history env sched s) = Suc (length sched)"
  by (induction sched arbitrary: s) simp_all

lemma history_step:
  assumes "n < length sched"
  shows "history env sched s ! Suc n = step env (sched ! n) (history env sched s ! n)"
  using assms
  by (simp add: history_nth take_Suc_conv_app_nth exec_append)

lemma history_reachable:
  assumes "x \<in> set (history env sched init)"
  shows "main_inv env x"
proof -
  from assms obtain n where "n < length (history env sched init)"
    and "x = history env sched init ! n"
    by (auto simp: in_set_conv_nth)
  then show ?thesis
    by (simp add: length_history history_nth inv_reachable)
qed

lemma history_stop_all:
  "stop s \<Longrightarrow> map stop (history env sched s) = replicate (Suc (length sched)) True"
  by (induction sched arbitrary: s) (simp_all add: step_stop)

lemma history_flag_shape:
  "\<exists>i j. map stop (history env sched s) = replicate i False @ replicate j True"
proof (induction sched arbitrary: s)
  case Nil
  show ?case
  proof (cases "stop s")
    case True
    then have "map stop (history env [] s) = replicate 0 False @ replicate 1 True" by simp
    then show ?thesis by blast
  next
    case False
    then have "map stop (history env [] s) = replicate 1 False @ replicate 0 True" by simp
    then show ?thesis by blast
  qed
next
  case (Cons t ts)
  show ?case
  proof (cases "stop s")
    case True
    then have "map stop (history env (t # ts) s) =
               replicate 0 False @ replicate (Suc (length (t # ts))) True"
      using history_stop_all [of s env "t # ts"] by simp
    then show ?thesis by blast
  next
    case False
    from Cons [of "step env t s"] obtain i j where
      "map stop (history env ts (step env t s)) = replicate i False @ replicate j True"
      by blast
    with False have "map stop (history env (t # ts) s) =
                     replicate (Suc i) False @ replicate j True"
      by simp
    then show ?thesis by blast
  qed
qed

lemma run_count_step:
  assumes "main_inv env s"
  shows "run_count (step env t s) =
         (if t = Controller \<and> pc s = LoopTop \<and> \<not> stop s then Suc (run_count s)
          else run_count s)"
proof (cases t)
  case Controller
  with assms show ?thesis
    by (cases "pc s"; cases "invoke env (run_count s)")
       (simp_all add: main_step_def main_inv_def)
next
  case Listener
  then show ?thesis
    using listener_step_ctl [of env s] by (simp add: ctl_def)
qed

section \<open>Clean stop and first failure\<close>

text \<open>
  Claim C1. For every \<open>N\<close>: when the first \<open>N\<close> invocations return status 0, there are
  executions that reach the loop test after \<open>N\<close> runs with the flag set, and in every such
  execution, however the two threads are scheduled afterwards, once the main thread has
  taken two more steps (the test that reads the flag and the code after the loop) the
  process has exited with status 0, no further run was started, and the log is the banner,
  the \<open>N\<close> passed runs and the summary \<^verbatim>\<open>All N runs passed successfully\<close>.
\<close>

theorem stop_after_passes_exits_zero:
  assumes "passes env N"
  shows "(\<exists>sched. pc (exec env sched init) = LoopTop \<and> run_count (exec env sched init) = N \<and>
                  stop (exec env sched init)) \<and>
         (\<forall>sched rest.
            pc (exec env sched init) = LoopTop \<and> run_count (exec env sched init) = N \<and>
            stop (exec env sched init) \<and> 2 \<le> count_list rest Controller \<longrightarrow>
            pc (exec env (sched @ rest) init) = Exited 0 \<and>
            run_count (exec env (sched @ rest) init) = N \<and>
            out (exec env (sched @ rest) init) =
              banner env @ passed_log N @
              [CHR 0x0A # ''--- Stress test finished. ---'',
               ''--- All '' @ str_int (int N) @ '' runs passed successfully. ---''])"
proof (intro conjI allI impI)
  show "\<exists>sched. pc (exec env sched init) = LoopTop \<and> run_count (exec env sched init) = N \<and>
                stop (exec env sched init)"
    using reach_stop_at_top [OF assms] by blast
next
  fix sched rest
  assume h: "pc (exec env sched init) = LoopTop \<and> run_count (exec env sched init) = N \<and>
             stop (exec env sched init) \<and> 2 \<le> count_list rest Controller"
  have c: "ctl (exec env rest (exec env sched init)) =
      (N, False, Exited 0,
       banner env @ passed_log N @
         [CHR 0x0A # ''--- Stress test finished. ---'',
          ''--- All '' @ str_int (int N) @ '' runs passed successfully. ---''])"
    using clean_stop [OF inv_reachable, of env sched rest] h by simp
  then show "pc (exec env (sched @ rest) init) = Exited 0"
    by (simp add: ctl_def exec_append)
  from c show "run_count (exec env (sched @ rest) init) = N"
    by (simp add: ctl_def exec_append)
  from c show "out (exec env (sched @ rest) init) =
      banner env @ passed_log N @
      [CHR 0x0A # ''--- Stress test finished. ---'',
       ''--- All '' @ str_int (int N) @ '' runs passed successfully. ---'']"
    by (simp add: ctl_def exec_append)
qed

theorem stop_after_passes_exits_zero_witness:
  "passes steady_env 5 \<and>
   pc (exec steady_env (replicate 11 Controller @ [Listener]) init) = LoopTop \<and>
   run_count (exec steady_env (replicate 11 Controller @ [Listener]) init) = 5 \<and>
   stop (exec steady_env (replicate 11 Controller @ [Listener]) init) \<and>
   pc (exec steady_env ((replicate 11 Controller @ [Listener]) @ [Controller, Listener, Controller])
         init) = Exited 0 \<and>
   last (out (exec steady_env
                ((replicate 11 Controller @ [Listener]) @ [Controller, Listener, Controller])
                init)) = ''--- All 5 runs passed successfully. ---''"
proof -
  have p: "passes steady_env 5"
    by (simp add: passes_def steady_env_def)
  have h: "pc (exec steady_env (replicate 11 Controller @ [Listener]) init) = LoopTop \<and>
      run_count (exec steady_env (replicate 11 Controller @ [Listener]) init) = 5 \<and>
      stop (exec steady_env (replicate 11 Controller @ [Listener]) init) \<and>
      2 \<le> count_list [Controller, Listener, Controller] Controller"
    by code_simp
  have s: "str_int 5 = ''5''"
    by code_simp
  note c = stop_after_passes_exits_zero [OF p, THEN conjunct2, rule_format, OF h]
  have l: "last (out (exec steady_env
                ((replicate 11 Controller @ [Listener]) @ [Controller, Listener, Controller])
                init)) = ''--- All 5 runs passed successfully. ---''"
    unfolding c [THEN conjunct2, THEN conjunct2] by (simp add: s)
  show ?thesis
    using p h c l by blast
qed

text \<open>
  Claim C2. For every \<open>N\<close>: when the first \<open>N\<close> invocations return status 0 and
  invocation \<open>N + 1\<close> returns a status \<open>S\<close> other than 0, there are executions in which
  invocation \<open>N + 1\<close> is under way, and in every such execution the run counter stays at
  \<open>N + 1\<close> under every later schedule (exactly \<open>N + 1\<close> invocations), and once the main
  thread has taken two more steps the process has exited with status 1 and the log ends
  with the header of run \<open>N + 1\<close>, the line giving \<open>S\<close>, and the captured standard output
  and standard error of that invocation, unchanged.
\<close>

theorem failure_after_passes_exits_one:
  assumes "passes env N" and "invoke env (Suc N) = Completed S stdout stderr" and "S \<noteq> 0"
  shows "(\<exists>sched. pc (exec env sched init) = Running \<and>
                  run_count (exec env sched init) = Suc N) \<and>
         (\<forall>sched rest.
            pc (exec env sched init) = Running \<and> run_count (exec env sched init) = Suc N \<longrightarrow>
            run_count (exec env (sched @ rest) init) = Suc N \<and>
            (2 \<le> count_list rest Controller \<longrightarrow>
             pc (exec env (sched @ rest) init) = Exited 1 \<and>
             out (exec env (sched @ rest) init) =
               banner env @ passed_log N @
               [run_header (Suc N),
                ''--- Result: FAILED (Exit Code: '' @ str_int S @ '') ---'',
                CHR 0x0A # ''--- STDOUT ---'', stdout,
                CHR 0x0A # ''--- STDERR ---'', stderr,
                CHR 0x0A # ''--- Stress test finished. ---'', ''--- Failure detected. ---'']))"
proof (intro conjI allI impI)
  show "\<exists>sched. pc (exec env sched init) = Running \<and> run_count (exec env sched init) = Suc N"
    using reach_running [OF assms(1)] by blast
next
  fix sched rest
  assume h: "pc (exec env sched init) = Running \<and> run_count (exec env sched init) = Suc N"
  let ?s = "exec env sched init"
  have bad: "\<not> passed (invoke env (run_count ?s))"
    using h assms(2,3) by simp
  have "settled env ?s"
    using h bad by (simp add: settled_def no_more_checks_def)
  then show "run_count (exec env (sched @ rest) init) = Suc N"
    using no_new_run [of env ?s rest] h by (simp add: exec_append)
  assume n: "2 \<le> count_list rest Controller"
  have c: "ctl (exec env rest ?s) =
      (run_count ?s, True, Exited 1,
       failed_log env (run_count ?s) @
         [CHR 0x0A # ''--- Stress test finished. ---'', ''--- Failure detected. ---''])"
    using h bad n by (intro failing_run inv_reachable) simp_all
  then show "pc (exec env (sched @ rest) init) = Exited 1"
    by (simp add: ctl_def exec_append)
  from c show "out (exec env (sched @ rest) init) =
      banner env @ passed_log N @
      [run_header (Suc N),
       ''--- Result: FAILED (Exit Code: '' @ str_int S @ '') ---'',
       CHR 0x0A # ''--- STDOUT ---'', stdout,
       CHR 0x0A # ''--- STDERR ---'', stderr,
       CHR 0x0A # ''--- Stress test finished. ---'', ''--- Failure detected. ---'']"
    using h assms(2) by (simp add: ctl_def exec_append failed_log_def)
qed

theorem failure_after_passes_exits_one_witness:
  "passes flaky_env 3 \<and>
   invoke flaky_env (Suc 3) = Completed 2 [] ''assertion failed'' \<and>
   pc (exec flaky_env (replicate 8 Controller) init) = Running \<and>
   run_count (exec flaky_env (replicate 8 Controller) init) = Suc 3 \<and>
   run_count (exec flaky_env (replicate 8 Controller @ [Listener, Controller, Controller]) init)
     = Suc 3 \<and>
   pc (exec flaky_env (replicate 8 Controller @ [Listener, Controller, Controller]) init)
     = Exited 1 \<and>
   out (exec flaky_env (replicate 8 Controller @ [Listener, Controller, Controller]) init) =
     [''--- Starting stress test. Press any key to stop gracefully. ---'',
      ''--- Test command: /usr/bin/python3 run_tests.py ---'',
      CHR 0x0A # ''--- [ Run 1 ] ---'', ''--- Result: PASSED ---'',
      CHR 0x0A # ''--- [ Run 2 ] ---'', ''--- Result: PASSED ---'',
      CHR 0x0A # ''--- [ Run 3 ] ---'', ''--- Result: PASSED ---'',
      CHR 0x0A # ''--- [ Run 4 ] ---'', ''--- Result: FAILED (Exit Code: 2) ---'',
      CHR 0x0A # ''--- STDOUT ---'', [],
      CHR 0x0A # ''--- STDERR ---'', ''assertion failed'',
      CHR 0x0A # ''--- Stress test finished. ---'', ''--- Failure detected. ---'']"
proof -
  have p: "passes flaky_env 3"
    by (simp add: passes_def flaky_env_def)
  have i: "invoke flaky_env (Suc 3) = Completed 2 [] ''assertion failed''"
    by (simp add: flaky_env_def)
  have ne: "(2::int) \<noteq> 0"
    by simp
  have h: "pc (exec flaky_env (replicate 8 Controller) init) = Running \<and>
           run_count (exec flaky_env (replicate 8 Controller) init) = Suc 3"
    by code_simp
  have n: "2 \<le> count_list [Listener, Controller, Controller] Controller"
    by simp
  have e: "banner flaky_env @ passed_log 3 @
      [run_header (Suc 3),
       ''--- Result: FAILED (Exit Code: '' @ str_int 2 @ '') ---'',
       CHR 0x0A # ''--- STDOUT ---'', [],
       CHR 0x0A # ''--- STDERR ---'', ''assertion failed'',
       CHR 0x0A # ''--- Stress test finished. ---'', ''--- Failure detected. ---''] =
     [''--- Starting stress test. Press any key to stop gracefully. ---'',
      ''--- Test command: /usr/bin/python3 run_tests.py ---'',
      CHR 0x0A # ''--- [ Run 1 ] ---'', ''--- Result: PASSED ---'',
      CHR 0x0A # ''--- [ Run 2 ] ---'', ''--- Result: PASSED ---'',
      CHR 0x0A # ''--- [ Run 3 ] ---'', ''--- Result: PASSED ---'',
      CHR 0x0A # ''--- [ Run 4 ] ---'', ''--- Result: FAILED (Exit Code: 2) ---'',
      CHR 0x0A # ''--- STDOUT ---'', [],
      CHR 0x0A # ''--- STDERR ---'', ''assertion failed'',
      CHR 0x0A # ''--- Stress test finished. ---'', ''--- Failure detected. ---'']"
    by code_simp
  note c = failure_after_passes_exits_one [OF p i ne, THEN conjunct2, rule_format, OF h]
  note c1 = c [THEN conjunct1]
  note c2 = c [THEN conjunct2, rule_format, OF n]
  show ?thesis
    using p i h c1 c2 [unfolded e] by blast
qed

section \<open>Exit status\<close>

text \<open>
  Claim C3. In every execution in which the process has exited, the status is 0 or 1: it
  is 0 exactly when no failure was recorded, and then the flag was set and every run that
  was started passed; it is 1 exactly when a failure was recorded, and then the last run
  started did not pass, that is, it returned a status other than 0, the command could not
  be started, or another error was raised.
\<close>

theorem exit_status_mapping:
  assumes "s = exec env sched init" and "pc s = Exited status"
  shows "(status = 0 \<and> \<not> has_failed s \<and> stop s \<and> passes env (run_count s)) \<or>
         (status = 1 \<and> has_failed s \<and> 1 \<le> run_count s \<and> passes env (run_count s - 1) \<and>
          \<not> passed (invoke env (run_count s)))"
  using inv_reachable [of env sched] assms
  by (cases "has_failed s") (simp_all add: main_inv_def)

theorem exit_status_mapping_witness:
  "pc (exec flaky_env (replicate 10 Controller) init) = Exited 1 \<and>
   has_failed (exec flaky_env (replicate 10 Controller) init) \<and>
   \<not> passed (invoke flaky_env (run_count (exec flaky_env (replicate 10 Controller) init))) \<and>
   pc (exec steady_env [Controller, Listener, Controller, Controller] init) = Exited 0 \<and>
   stop (exec steady_env [Controller, Listener, Controller, Controller] init) \<and>
   passes steady_env
     (run_count (exec steady_env [Controller, Listener, Controller, Controller] init))"
proof -
  have a: "pc (exec flaky_env (replicate 10 Controller) init) = Exited 1"
    by code_simp
  have b: "pc (exec steady_env [Controller, Listener, Controller, Controller] init) = Exited 0"
    by code_simp
  have ne: "(1::int) \<noteq> 0" "(0::int) \<noteq> 1"
    by simp_all
  from exit_status_mapping [OF refl a] exit_status_mapping [OF refl b] ne a b
  show ?thesis
    by blast
qed

section \<open>The listener where raw input is refused\<close>

text \<open>
  Claim C4. On a platform without the \<^verbatim>\<open>termios\<close> module the listener does not fall back
  to \<^verbatim>\<open>input()\<close>: matching the \<^verbatim>\<open>except\<close> clause raises \<^verbatim>\<open>UnboundLocalError\<close>, no input is
  read, and the \<^verbatim>\<open>finally\<close> block sets the flag and prints the acknowledgement all the
  same. With the listener scheduled before the first loop test, the process then exits
  with status 0 after zero runs.
\<close>

theorem listener_without_termios:
  "listen_for_keypress no_termios False =
     \<lparr>stop_after = True,
      events = [Printed (CHR 0x0A #
        ''--- Keypress detected. Stopping after current test run... ---'')],
      raised = Some UnboundLocalError\<rparr> \<and>
   pc (exec windows_env [Controller, Listener, Controller, Controller] init) = Exited 0 \<and>
   run_count (exec windows_env [Controller, Listener, Controller, Controller] init) = 0"
  by code_simp

section \<open>A command that cannot be started\<close>



section \<open>Cancellation is cooperative\<close>



section \<open>Fail fast\<close>

text \<open>
  Claim C7. In every execution in which the invocation under way does not pass (a status
  other than 0, a command that cannot be started, or any other error), all earlier runs
  passed, so it is the first such invocation, and under every later schedule: the run
  counter never grows again and the loop test is never reached again, so the invocation is
  not retried and none follows it; after one more step of the main thread the failure is
  recorded and no invocation is under way; after two the process has exited with status 1.
\<close>

theorem fail_fast:
  assumes "s = exec env sched init" and "pc s = Running"
    and "\<not> passed (invoke env (run_count s))"
  shows "passes env (run_count s - 1) \<and>
         (\<forall>rest. run_count (exec env rest s) = run_count s \<and>
                 pc (exec env rest s) \<noteq> LoopTop \<and>
                 (1 \<le> count_list rest Controller \<longrightarrow>
                    has_failed (exec env rest s) \<and> pc (exec env rest s) \<noteq> Running) \<and>
                 (2 \<le> count_list rest Controller \<longrightarrow> pc (exec env rest s) = Exited 1))"
proof (intro conjI allI impI)
  have inv: "main_inv env s"
    using assms(1) inv_reachable by simp
  with assms(2) show "passes env (run_count s - 1)"
    by (simp add: main_inv_def)
  have st: "settled env s"
    using assms(2,3) by (simp add: settled_def no_more_checks_def)
  fix rest
  show "run_count (exec env rest s) = run_count s"
    using no_new_run [OF st, of rest] assms(2) by simp
  show "pc (exec env rest s) \<noteq> LoopTop"
  proof (cases "count_list rest Controller")
    case 0
    then have "ctl (exec env rest s) = ctl s"
      using exec_settled [OF st, of rest] by simp
    with assms(2) show ?thesis by (simp add: ctl_def)
  next
    case (Suc k)
    then show ?thesis
      using after_failing_return [OF assms(2,3), of rest] by auto
  qed
  {
    assume "1 \<le> count_list rest Controller"
    then show "has_failed (exec env rest s)" and "pc (exec env rest s) \<noteq> Running"
      using after_failing_return [OF assms(2,3), of rest] by auto
  }
  {
    assume "2 \<le> count_list rest Controller"
    then show "pc (exec env rest s) = Exited 1"
      using failing_run [OF inv assms(2,3), of rest] by (simp add: ctl_def)
  }
qed

theorem fail_fast_witness:
  "pc (exec flaky_env (replicate 8 Controller) init) = Running \<and>
   \<not> passed (invoke flaky_env (run_count (exec flaky_env (replicate 8 Controller) init))) \<and>
   run_count (exec flaky_env [Listener, Controller, Controller, Controller]
                (exec flaky_env (replicate 8 Controller) init)) =
     run_count (exec flaky_env (replicate 8 Controller) init) \<and>
   has_failed (exec flaky_env [Listener, Controller, Controller, Controller]
                 (exec flaky_env (replicate 8 Controller) init)) \<and>
   pc (exec flaky_env [Listener, Controller, Controller, Controller]
         (exec flaky_env (replicate 8 Controller) init)) = Exited 1"
proof -
  have a: "pc (exec flaky_env (replicate 8 Controller) init) = Running"
    by code_simp
  have b: "\<not> passed (invoke flaky_env (run_count (exec flaky_env (replicate 8 Controller) init)))"
    by code_simp
  have n: "1 \<le> count_list [Listener, Controller, Controller, Controller] Controller"
    "2 \<le> count_list [Listener, Controller, Controller, Controller] Controller"
    by simp_all
  note c = fail_fast [OF refl a b, THEN conjunct2, rule_format,
      of "[Listener, Controller, Controller, Controller]"]
  from a b n c show ?thesis
    by blast
qed

section \<open>The flag and the sequence numbers\<close>

text \<open>
  Claim C8. Along every execution: the flag starts false; its successive values are a
  block of \<open>False\<close> followed by a block of \<open>True\<close>, so it changes at most once and never
  back; every step that changes it is a step of the listener; the run counter grows by
  exactly 1 at each step of the main thread that passes the loop test with the flag clear,
  and at no other step; and whenever an invocation is under way its number is at least 1
  and the log holds the headers of the runs 1 up to that number, in order, each once.
\<close>

theorem flag_and_sequence_numbers:
  "\<not> stop init \<and>
   (\<exists>i j. map stop (history env sched init) = replicate i False @ replicate j True) \<and>
   (\<forall>n<length sched.
      stop (history env sched init ! Suc n) \<noteq> stop (history env sched init ! n) \<longrightarrow>
      sched ! n = Listener) \<and>
   (\<forall>n<length sched.
      run_count (history env sched init ! Suc n) =
        (if sched ! n = Controller \<and> pc (history env sched init ! n) = LoopTop \<and>
            \<not> stop (history env sched init ! n)
         then Suc (run_count (history env sched init ! n))
         else run_count (history env sched init ! n))) \<and>
   (\<forall>x\<in>set (history env sched init).
      pc x = Running \<longrightarrow>
      1 \<le> run_count x \<and>
      out x = banner env @ passed_log (run_count x - 1) @ [run_header (run_count x)])"
proof (intro conjI allI impI ballI)
  show "\<not> stop init"
    by (simp add: init_def)
  show "\<exists>i j. map stop (history env sched init) = replicate i False @ replicate j True"
    by (rule history_flag_shape)
next
  fix n
  assume n: "n < length sched"
    and ch: "stop (history env sched init ! Suc n) \<noteq> stop (history env sched init ! n)"
  show "sched ! n = Listener"
  proof (cases "sched ! n")
    case Controller
    with ch show ?thesis
      by (simp add: history_step [OF n] main_step_stop)
  next
    case Listener
    then show ?thesis .
  qed
next
  fix n
  assume n: "n < length sched"
  have "main_inv env (history env sched init ! n)"
    using n by (simp add: history_nth inv_reachable)
  then show "run_count (history env sched init ! Suc n) =
        (if sched ! n = Controller \<and> pc (history env sched init ! n) = LoopTop \<and>
            \<not> stop (history env sched init ! n)
         then Suc (run_count (history env sched init ! n))
         else run_count (history env sched init ! n))"
    unfolding history_step [OF n] by (rule run_count_step)
next
  fix x
  assume "x \<in> set (history env sched init)" and "pc x = Running"
  then show "1 \<le> run_count x"
    and "out x = banner env @ passed_log (run_count x - 1) @ [run_header (run_count x)]"
    using history_reachable [of x env sched] by (simp_all add: main_inv_def)
qed

theorem flag_and_sequence_numbers_witness:
  "map stop (history steady_env [Controller, Controller, Listener, Controller, Controller] init) =
     [False, False, False, True, True, True] \<and>
   [Controller, Controller, Listener, Controller, Controller] ! 2 = Listener \<and>
   map run_count
     (history steady_env [Controller, Controller, Listener, Controller, Controller] init) =
     [0, 0, 1, 1, 1, 1] \<and>
   run_count
     (history steady_env [Controller, Controller, Listener, Controller, Controller] init ! Suc 1) =
     Suc (run_count
       (history steady_env [Controller, Controller, Listener, Controller, Controller] init ! 1)) \<and>
   out (history steady_env [Controller, Controller, Listener, Controller, Controller] init ! 2) =
     banner steady_env @ passed_log 0 @ [run_header 1]"
proof -
  let ?sched = "[Controller, Controller, Listener, Controller, Controller]"
  let ?h = "history steady_env ?sched init"
  have a: "map stop ?h = [False, False, False, True, True, True]"
    by code_simp
  have b: "map run_count ?h = [0, 0, 1, 1, 1, 1]"
    by code_simp
  have l: "2 < length ?sched" "1 < length ?sched"
    by simp_all
  have ch: "stop (?h ! Suc 2) \<noteq> stop (?h ! 2)"
    by code_simp
  have top: "?sched ! 1 = Controller \<and> pc (?h ! 1) = LoopTop \<and> \<not> stop (?h ! 1)"
    by code_simp
  have mem: "?h ! 2 \<in> set ?h"
    by (rule nth_mem) (simp add: length_history)
  have run: "pc (?h ! 2) = Running" "run_count (?h ! 2) = 1"
    by code_simp+
  note c = flag_and_sequence_numbers [of steady_env ?sched]
  note c3 = c [THEN conjunct2, THEN conjunct2, THEN conjunct1, rule_format, OF l(1) ch]
  note c4 = c [THEN conjunct2, THEN conjunct2, THEN conjunct2, THEN conjunct1, rule_format,
      OF l(2)]
  note c5 = c [THEN conjunct2, THEN conjunct2, THEN conjunct2, THEN conjunct2, rule_format,
      OF mem run(1), THEN conjunct2]
  from c4 top have d: "run_count (?h ! Suc 1) = Suc (run_count (?h ! 1))"
    by (simp only: if_True simp_thms)
  from c5 run(2) have o: "out (?h ! 2) = banner steady_env @ passed_log 0 @ [run_header 1]"
    by simp
  from a b c3 d o show ?thesis
    by blast
qed

section \<open>Failure before cancellation\<close>

text \<open>
  Claim C9. In every execution, under every schedule of the listener, in which some
  invocation \<open>k\<close> has returned and did not pass: \<open>k\<close> is the last run started, the failure
  is recorded, the process never exits with status 0 under any later schedule, and it has
  exited with status 1 as soon as the main thread has taken one more step. Whether and when
  the flag was set plays no part.
\<close>

theorem failure_beats_cancellation:
  assumes "s = exec env sched init"
    and "1 \<le> k" and "k \<le> run_count s" and "\<not> passed (invoke env k)"
    and "pc s = Running \<longrightarrow> k < run_count s"
  shows "k = run_count s \<and> has_failed s \<and>
         (\<forall>rest. pc (exec env rest s) \<noteq> Exited 0 \<and>
                 (1 \<le> count_list rest Controller \<longrightarrow> pc (exec env rest s) = Exited 1))"
proof -
  have inv: "main_inv env s"
    using assms(1) inv_reachable by simp
  have np: "\<not> passes env n" if "k \<le> n" for n
    using assms(2,4) that by (auto simp: passes_def)
  have k0: "run_count s \<noteq> 0"
    using assms(2,3) by simp
  have lt: "k = run_count s" if "\<not> k \<le> run_count s - 1"
    using that assms(3) by simp
  have all: "\<not> passes env (run_count s)"
    by (rule np [OF assms(3)])
  have fin: "(pc s = AfterLoop \<or> pc s = Exited 1) \<and> has_failed s \<and> k = run_count s"
  proof (cases "pc s")
    case Startup
    with inv k0 show ?thesis by (simp add: main_inv_def)
  next
    case LoopTop
    with inv all show ?thesis by (simp add: main_inv_def)
  next
    case Running
    with assms(5) have "k \<le> run_count s - 1" by simp
    from np [OF this] inv Running show ?thesis by (simp add: main_inv_def)
  next
    case AfterLoop
    with inv all have "has_failed s" and "passes env (run_count s - 1)"
      by (auto simp: main_inv_def split: if_splits)
    with np [of "run_count s - 1"] lt AfterLoop show ?thesis by blast
  next
    case (Exited status)
    with inv all have "has_failed s" and "passes env (run_count s - 1)" and "status = 1"
      by (auto simp: main_inv_def split: if_splits)
    with np [of "run_count s - 1"] lt Exited show ?thesis by blast
  qed
  have ex: "pc (exec env rest s) \<noteq> Exited 0 \<and>
            (1 \<le> count_list rest Controller \<longrightarrow> pc (exec env rest s) = Exited 1)" for rest
  proof (cases "pc s = AfterLoop")
    case True
    have st: "settled env s"
      using True by (simp add: settled_def no_more_checks_def)
    show ?thesis
    proof (cases "count_list rest Controller")
      case 0
      then have "ctl (exec env rest s) = ctl s"
        using exec_settled [OF st, of rest] by simp
      with True 0 show ?thesis by (simp add: ctl_def)
    next
      case (Suc m)
      then show ?thesis
        using after_loop_exit [OF True, of rest env] fin by simp
    qed
  next
    case False
    with fin have e: "pc s = Exited 1" by simp
    then have "exec env rest s = s"
      by (intro exec_exited) (simp add: exited_def)
    with e show ?thesis by simp
  qed
  from fin ex show ?thesis by blast
qed

theorem failure_beats_cancellation_witness:
  "run_count (exec flaky_env (replicate 8 Controller @ [Listener, Controller]) init) = 4 \<and>
   stop (exec flaky_env (replicate 8 Controller @ [Listener, Controller]) init) \<and>
   \<not> passed (invoke flaky_env 4) \<and>
   pc (exec flaky_env (replicate 8 Controller @ [Listener, Controller]) init) = AfterLoop \<and>
   has_failed (exec flaky_env (replicate 8 Controller @ [Listener, Controller]) init) \<and>
   pc (exec flaky_env [Controller]
         (exec flaky_env (replicate 8 Controller @ [Listener, Controller]) init)) = Exited 1"
proof -
  let ?s = "exec flaky_env (replicate 8 Controller @ [Listener, Controller]) init"
  have a: "run_count ?s = 4" and st: "stop ?s" and pc: "pc ?s = AfterLoop"
    by code_simp+
  have k: "(1::nat) \<le> 4" "4 \<le> run_count ?s"
    using a by simp_all
  have b: "\<not> passed (invoke flaky_env 4)"
    by (simp add: flaky_env_def)
  have r: "pc ?s = Running \<longrightarrow> 4 < run_count ?s"
    using pc by simp
  have n: "1 \<le> count_list [Controller] Controller"
    by simp
  note c = failure_beats_cancellation [OF refl k b r]
  note c2 = c [THEN conjunct2, THEN conjunct1]
  note c3 = c [THEN conjunct2, THEN conjunct2, rule_format, of "[Controller]",
      THEN conjunct2, rule_format, OF n]
  from a st b pc c2 c3 show ?thesis
    by blast
qed

end
